theory Spec2Isabelle
  imports Main "HOL-Library.Word"
begin

section \<open>C strings and character classes\<close>

text \<open>
  The converter of \<^verbatim>\<open>qxf2qif.cpp\<close> works on NUL-terminated byte strings. A C string is
  modelled by the list of the bytes before its terminating NUL, and a pointer into a
  NUL-terminated buffer by the suffix of the buffer that starts at the pointer: the end
  of the list is the terminator. \<open>read_file_all\<close> appends a NUL to the bytes of the
  file, so what every later function sees of the file is \<open>cstr bytes\<close>.
\<close>

definition cstr :: "string \<Rightarrow> string" where
  "cstr bytes = takeWhile (\<lambda>c. c \<noteq> CHR 0x00) bytes"

text \<open>\<open>*p\<close>: the byte under a pointer, NUL at the end of the string.\<close>

definition deref :: "string \<Rightarrow> char" where
  "deref s = (case s of [] \<Rightarrow> CHR 0x00 | c # _ \<Rightarrow> c)"

text \<open>
  The program never calls \<open>setlocale\<close>, so \<open>tolower\<close>, \<open>isspace\<close> and \<open>isdigit\<close> are
  those of the "C" locale, applied to the byte as \<open>unsigned char\<close>.
\<close>

definition tolower_c :: "char \<Rightarrow> char" where
  "tolower_c c =
     (if 65 \<le> (of_char c :: nat) \<and> (of_char c :: nat) \<le> 90
      then char_of ((of_char c :: nat) + 32) else c)"

definition isspace_c :: "char \<Rightarrow> bool" where
  "isspace_c c \<longleftrightarrow> (of_char c :: nat) = 32 \<or> (9 \<le> (of_char c :: nat) \<and> (of_char c :: nat) \<le> 13)"

definition isdigit_c :: "char \<Rightarrow> bool" where
  "isdigit_c c \<longleftrightarrow> 48 \<le> (of_char c :: nat) \<and> (of_char c :: nat) \<le> 57"

text \<open>
  \<open>strncasecmp s1 s2 n\<close>: compares at most \<open>n\<close> bytes, folding case, and stops at the
  terminator of either string. The value is the difference of the first two folded
  bytes that differ, and 0 when there are none.
\<close>

fun strncasecmp :: "string \<Rightarrow> string \<Rightarrow> nat \<Rightarrow> int" where
  "strncasecmp s1 s2 0 = 0"
| "strncasecmp [] [] (Suc n) = 0"
| "strncasecmp [] (b # s2) (Suc n) = - int (of_char (tolower_c b))"
| "strncasecmp (a # s1) [] (Suc n) = int (of_char (tolower_c a))"
| "strncasecmp (a # s1) (b # s2) (Suc n) =
     (if tolower_c a \<noteq> tolower_c b
      then int (of_char (tolower_c a)) - int (of_char (tolower_c b))
      else strncasecmp s1 s2 n)"

text \<open>\<open>strchr s c\<close>: the suffix at the first occurrence of \<open>c\<close>; the terminator counts.\<close>

fun strchr :: "string \<Rightarrow> char \<Rightarrow> string option" where
  "strchr [] c = (if c = CHR 0x00 then Some [] else None)"
| "strchr (x # s) c = (if x = c then Some (x # s) else strchr s c)"

text \<open>
  \<open>snprintf\<close> into a buffer of \<open>bufsize\<close> bytes keeps the first \<open>bufsize - 1\<close> bytes of
  the formatted text; \<open>strncpy dst src n\<close> into a zero-filled buffer of more than \<open>n\<close>
  bytes leaves the first \<open>n\<close> bytes of \<open>src\<close>.
\<close>

definition snprintf :: "nat \<Rightarrow> string \<Rightarrow> string" where
  "snprintf bufsize text = take (bufsize - 1) text"

definition strncpy :: "string \<Rightarrow> nat \<Rightarrow> string" where
  "strncpy src n = take n src"

section \<open>The functions of the converter\<close>

definition MAX_FIELD :: nat where
  "MAX_FIELD = 4096"

text \<open>
  \<open>strcasestr_simple hay needle\<close>: the \<open>for\<close> loop walks \<open>hay\<close> until its
  terminator and returns the first position where the folded first bytes agree and
  \<open>strncasecmp\<close> over \<open>nlen\<close> bytes is 0.
\<close>

fun strcasestr_scan :: "string \<Rightarrow> string \<Rightarrow> nat \<Rightarrow> string option" where
  "strcasestr_scan [] needle nlen = None"
| "strcasestr_scan (c # hay) needle nlen =
     (if tolower_c c = tolower_c (deref needle) \<and> strncasecmp (c # hay) needle nlen = 0
      then Some (c # hay)
      else strcasestr_scan hay needle nlen)"

definition strcasestr_simple :: "string \<Rightarrow> string \<Rightarrow> string option" where
  "strcasestr_simple hay needle =
     (let nlen = length needle in
      if nlen = 0 then Some hay else strcasestr_scan hay needle nlen)"

text \<open>
  \<open>extract_tag_content start tag out out_len\<close>. The result is \<open>None\<close> where the
  source returns 0 and leaves \<open>out\<close> alone, and \<open>Some\<close> of the string written to
  \<open>out\<close> where it returns 1. The source repeats the search for the open tag when the
  first one found nothing; the model keeps the repetition. \<open>q - p\<close> is the number of
  bytes between the two pointers. The model is that of \<open>out_len \<ge> 1\<close>: with
  \<open>out_len = 0\<close> the source computes \<open>out_len - 1\<close> in \<open>size_t\<close> and overruns
  \<open>out\<close>; every call passes \<open>sizeof\<close> of a buffer of \<open>MAX_FIELD\<close> bytes.
\<close>

definition extract_tag_content :: "string \<Rightarrow> string \<Rightarrow> nat \<Rightarrow> string option" where
  "extract_tag_content start tag out_len =
     (let tlen = length tag in
      if tlen + 3 \<ge> 64 then None
      else
        let opentag = snprintf 64 (''<'' @ tag @ ''>'');
            closetag = snprintf 64 (''</'' @ tag @ ''>'');
            p = strcasestr_simple start opentag;
            p = (if p = None then strcasestr_simple start opentag else p)
        in case p of
             None \<Rightarrow> None
           | Some p0 \<Rightarrow>
               let p = drop (length opentag) p0 in
               (case strcasestr_simple p closetag of
                  Some q \<Rightarrow>
                    let copylen = length p - length q;
                        copylen = (if copylen \<ge> out_len then out_len - 1 else copylen)
                    in Some (take copylen p)
                | None \<Rightarrow>
                    let r = dropWhile (\<lambda>c. c \<noteq> CHR ''<'') p;
                        copylen = length p - length r;
                        copylen = (if copylen \<ge> out_len then out_len - 1 else copylen)
                    in Some (take copylen p)))"

text \<open>\<open>trim_inplace\<close>: skip the leading white space, then cut the trailing white space.\<close>

definition trim_inplace :: "string \<Rightarrow> string" where
  "trim_inplace s =
     (let p = dropWhile isspace_c s
      in rev (dropWhile isspace_c (rev p)))"

text \<open>
  \<open>ofxdate_to_mmddyyyy token out outlen\<close>: \<open>None\<close> for the return value 0 (\<open>out\<close>
  untouched), \<open>Some\<close> of the text written for 1. The pointer \<open>token\<close> is never null
  in this program.
\<close>

definition ofxdate_to_mmddyyyy :: "string \<Rightarrow> nat \<Rightarrow> string option" where
  "ofxdate_to_mmddyyyy token outlen =
     (if length token < 8 \<or> outlen < 11 then None
      else
        let yyyy = take 4 token;
            mm = take 2 (drop 4 token);
            dd = take 2 (drop 6 token)
        in if \<not> list_all isdigit_c yyyy then None
           else if \<not> list_all isdigit_c mm then None
           else if \<not> list_all isdigit_c dd then None
           else Some (snprintf outlen (mm @ ''/'' @ dd @ ''/'' @ yyyy)))"

text \<open>
  \<open>find_next_stmttrn buf bufend startptr endptr\<close>: \<open>None\<close> for 0, and for 1 the two
  pointers stored, as suffixes of \<open>buf\<close>. The source never reads \<open>bufend\<close>.
\<close>

definition find_next_stmttrn :: "string \<Rightarrow> (string \<times> string) option" where
  "find_next_stmttrn buf =
     (case strcasestr_simple buf ''<STMTTRN'' of
        None \<Rightarrow> None
      | Some p \<Rightarrow>
          (case strchr p (CHR ''>'') of
             None \<Rightarrow> None
           | Some gt \<Rightarrow>
               let opn = drop 1 gt in
               (case strcasestr_simple opn ''</STMTTRN>'' of
                  None \<Rightarrow> None
                | Some cls \<Rightarrow> Some (opn, drop (length ''</STMTTRN>'') cls))))"

section \<open>The record loop of \<open>main\<close>\<close>

text \<open>
  The state of a conversion: the \<open>fprintf\<close> calls made on the output file so far, each
  with the text it wrote, the counter of transactions and the memo warning flag. The
  bytes of the output file are the concatenation of the texts written. The counter is
  an \<open>int\<close> in the source, of 32 bits: the model is a 32-bit word, read as a signed
  number by \<open>sint\<close>. Where the increment of the source overflows, which C leaves
  undefined, the word wraps round.
\<close>

record conv_state =
  fout :: "string list"
  numTransactions :: "32 word"
  printMemoWarning :: bool

definition line :: "string \<Rightarrow> string" where
  "line s = s @ [CHR 0x0A]"

definition fprintf :: "conv_state \<Rightarrow> string \<Rightarrow> conv_state" where
  "fprintf st text = st\<lparr>fout := fout st @ [text]\<rparr>"

definition file_contents :: "conv_state \<Rightarrow> string" where
  "file_contents st = concat (fout st)"

text \<open>
  A field buffer is zero-filled before \<open>extract_tag_content\<close> is called on it and the
  return value is ignored, so a tag that is not found leaves the empty string.
\<close>

definition raw_field :: "string \<Rightarrow> string \<Rightarrow> string" where
  "raw_field block_start tag =
     (case extract_tag_content block_start tag MAX_FIELD of None \<Rightarrow> [] | Some v \<Rightarrow> v)"

definition sanitize :: "string \<Rightarrow> string" where
  "sanitize s = map (\<lambda>c. if c = CHR 0x0D \<or> c = CHR 0x0A then CHR '' '' else c) s"

text \<open>The amount loop: \<open>ai\<close> counts the bytes stored in \<open>amt_clean\<close>, a buffer of
  \<open>cap\<close> bytes.\<close>

fun strip_commas :: "string \<Rightarrow> nat \<Rightarrow> nat \<Rightarrow> string" where
  "strip_commas [] ai cap = []"
| "strip_commas (c # trnamt) ai cap =
     (if ai + 1 < cap
      then (if c = CHR '','' then strip_commas trnamt ai cap
            else c # strip_commas trnamt (ai + 1) cap)
      else [])"

text \<open>The date conversion before the amount test, on a zero-filled \<open>qifdate[16]\<close>.\<close>

definition convert_date :: "string \<Rightarrow> string" where
  "convert_date dtposted =
     (case ofxdate_to_mmddyyyy dtposted 16 of
        Some d \<Rightarrow> d
      | None \<Rightarrow>
          if length dtposted \<ge> 8
          then (case ofxdate_to_mmddyyyy (strncpy dtposted 8) 16 of
                  Some d \<Rightarrow> d
                | None \<Rightarrow> [])
          else [])"

text \<open>The fallback after the amount test, when \<open>qifdate\<close> is still empty.\<close>

definition fallback_date :: "string \<Rightarrow> string \<Rightarrow> string" where
  "fallback_date dtposted qifdate =
     (if qifdate = []
      then (if length dtposted \<ge> 8
            then (case ofxdate_to_mmddyyyy (take 8 dtposted) 16 of
                    Some d \<Rightarrow> d
                  | None \<Rightarrow> strncpy dtposted (16 - 1))
            else strncpy dtposted (16 - 1))
      else qifdate)"

text \<open>
  One pass of the body of the \<open>while\<close> loop after \<open>find_next_stmttrn\<close> has returned
  \<open>block_start\<close>. What the loop prints on standard output at verbosity 2 is not part
  of the state.
\<close>

definition stmttrn_body :: "bool \<Rightarrow> string \<Rightarrow> conv_state \<Rightarrow> conv_state" where
  "stmttrn_body memoFlag block_start st =
     (let dtposted = trim_inplace (raw_field block_start ''DTPOSTED'');
          trnamt = trim_inplace (raw_field block_start ''TRNAMT'');
          name = sanitize (trim_inplace (raw_field block_start ''NAME''));
          memo = sanitize (trim_inplace (raw_field block_start ''MEMO''));
          qifdate = convert_date dtposted
      in if trnamt = [] then st
         else
           let amt_clean = strip_commas trnamt 0 MAX_FIELD;
               qifdate = fallback_date dtposted qifdate;
               st = (if qifdate \<noteq> [] then fprintf st (line (''D'' @ qifdate))
                     else fprintf st (line ''D''));
               st = (if name = [] then fprintf st (line ''P(unknown)'')
                     else fprintf st (line (''P'' @ sanitize name)));
               st = (if memo \<noteq> []
                     then (if memoFlag then fprintf st (line (''M'' @ memo))
                           else st\<lparr>printMemoWarning := True\<rparr>)
                     else st);
               st = fprintf st (line (''T'' @ amt_clean));
               st = fprintf st (line ''C*'');
               st = fprintf st (line ''^'')
           in st\<lparr>numTransactions := numTransactions st + 1\<rparr>)"

text \<open>
  Every pointer the searches return lies inside the string searched, and the position
  after a record lies strictly after the scan position: the record loop terminates.
\<close>

lemma strcasestr_scan_suffix:
  "strcasestr_scan hay needle n = Some s \<Longrightarrow> \<exists>pre. hay = pre @ s \<and> s \<noteq> []"
proof (induction hay)
  case Nil
  then show ?case by simp
next
  case (Cons c hay)
  show ?case
  proof (cases "tolower_c c = tolower_c (deref needle) \<and> strncasecmp (c # hay) needle n = 0")
    case True
    with Cons.prems have "s = c # hay" by simp
    then show ?thesis by simp
  next
    case False
    with Cons.prems have "strcasestr_scan hay needle n = Some s" by auto
    from Cons.IH [OF this] obtain pre where "hay = pre @ s" "s \<noteq> []" by blast
    then have "c # hay = (c # pre) @ s" by simp
    with \<open>s \<noteq> []\<close> show ?thesis by blast
  qed
qed

lemma strcasestr_simple_length:
  "strcasestr_simple hay needle = Some s \<Longrightarrow> length s \<le> length hay"
  by (auto simp: strcasestr_simple_def Let_def split: if_splits dest!: strcasestr_scan_suffix)

lemma strchr_split:
  "c \<noteq> CHR 0x00 \<Longrightarrow> strchr s c = Some r \<Longrightarrow> \<exists>pre t. s = pre @ r \<and> r = c # t \<and> c \<notin> set pre"
proof (induction s)
  case Nil
  then show ?case by simp
next
  case (Cons x s)
  show ?case
  proof (cases "x = c")
    case True
    with Cons.prems show ?thesis by auto
  next
    case False
    with Cons.prems have "strchr s c = Some r" by simp
    from Cons.IH [OF Cons.prems(1) this] obtain pre t
      where "s = pre @ r" "r = c # t" "c \<notin> set pre" by blast
    with False have "x # s = (x # pre) @ r \<and> r = c # t \<and> c \<notin> set (x # pre)" by simp
    then show ?thesis by blast
  qed
qed

lemma find_next_stmttrn_shorter:
  assumes "find_next_stmttrn buf = Some (block_start, block_after)"
  shows "length block_after < length buf"
proof -
  from assms obtain p gt cls where
    p: "strcasestr_simple buf ''<STMTTRN'' = Some p" and
    gt: "strchr p (CHR ''>'') = Some gt" and
    cls: "strcasestr_simple (drop 1 gt) ''</STMTTRN>'' = Some cls" and
    after: "block_after = drop (length ''</STMTTRN>'') cls"
    by (auto simp: find_next_stmttrn_def Let_def split: option.splits)
  from strchr_split [OF _ gt] obtain pre t where "p = pre @ gt" "gt = CHR ''>'' # t"
    by auto
  then have "length (drop 1 gt) < length p" by simp
  moreover from strcasestr_simple_length [OF p] have "length p \<le> length buf" .
  moreover from strcasestr_simple_length [OF cls] have "length cls \<le> length (drop 1 gt)" .
  ultimately show ?thesis using after by simp
qed

text \<open>
  The \<open>while (1)\<close> loop of \<open>main\<close>, left by the \<open>break\<close> when
  \<open>find_next_stmttrn\<close> returns 0; both the skip of a record without an amount and
  the end of the body set \<open>scan = block_after\<close>.
\<close>

function convert_loop :: "bool \<Rightarrow> string \<Rightarrow> conv_state \<Rightarrow> conv_state" where
  "convert_loop memoFlag scan st =
     (case find_next_stmttrn scan of
        None \<Rightarrow> st
      | Some (block_start, block_after) \<Rightarrow>
          convert_loop memoFlag block_after (stmttrn_body memoFlag block_start st))"
  by pat_completeness auto
termination
  by (relation "measure (\<lambda>(memoFlag, scan, st). length scan)")
     (auto dest: find_next_stmttrn_shorter)

text \<open>
  The conversion of \<open>main\<close> from the bytes of the input file, once both files are
  open: the header, then the record loop from the start of the buffer.
\<close>

definition convert :: "bool \<Rightarrow> string \<Rightarrow> conv_state" where
  "convert memoFlag bytes =
     convert_loop memoFlag (cstr bytes)
       \<lparr>fout = [line ''!Type:Bank''], numTransactions = 0, printMemoWarning = False\<rparr>"

text \<open>
  The \<open>block_start\<close> pointers of the successive passes of the loop, in the order the
  loop meets them.
\<close>

function scan_records :: "string \<Rightarrow> string list" where
  "scan_records scan =
     (case find_next_stmttrn scan of
        None \<Rightarrow> []
      | Some (block_start, block_after) \<Rightarrow> block_start # scan_records block_after)"
  by pat_completeness auto
termination
  by (relation "measure length") (auto dest: find_next_stmttrn_shorter)

declare convert_loop.simps [simp del] scan_records.simps [simp del]

section \<open>The values a record is emitted from\<close>

text \<open>
  The four field buffers of one pass of the loop body, as they stand after the trimming
  and the replacement of line breaks, as functions of \<open>block_start\<close>.
\<close>

definition dtposted_of :: "string \<Rightarrow> string" where
  "dtposted_of block_start = trim_inplace (raw_field block_start ''DTPOSTED'')"
definition trnamt_of :: "string \<Rightarrow> string" where
  "trnamt_of block_start = trim_inplace (raw_field block_start ''TRNAMT'')"
definition name_of :: "string \<Rightarrow> string" where
  "name_of block_start = sanitize (trim_inplace (raw_field block_start ''NAME''))"
definition memo_of :: "string \<Rightarrow> string" where
  "memo_of block_start = sanitize (trim_inplace (raw_field block_start ''MEMO''))"

text \<open>
  The record block of the output format: a date line, a payee line, a memo line only
  when memos are included and the memo is not empty, an amount line, the cleared
  status and the terminator.
\<close>

definition qif_block :: "bool \<Rightarrow> string \<Rightarrow> string \<Rightarrow> string \<Rightarrow> string \<Rightarrow> string list" where
  "qif_block includeMemo date payee memo amount =
     [line (''D'' @ date), line (''P'' @ payee)]
     @ (if includeMemo \<and> memo \<noteq> [] then [line (''M'' @ memo)] else [])
     @ [line (''T'' @ amount), line ''C*'', line ''^'']"

text \<open>
  The text of the date line: the converted date, and the first 15 bytes of the token
  when the conversion fails. The text of the payee line: the name, or the placeholder.
\<close>

definition date_text :: "string \<Rightarrow> string" where
  "date_text dtposted =
     (case ofxdate_to_mmddyyyy dtposted 16 of Some d \<Rightarrow> d | None \<Rightarrow> take 15 dtposted)"

definition payee_text :: "string \<Rightarrow> string" where
  "payee_text name = (if name = [] then ''(unknown)'' else name)"

section \<open>Occurrences of a marker\<close>

text \<open>
  What the claims say about the searches, in terms of the text alone.
  \<open>ci_prefix needle s\<close>: \<open>s\<close> begins with \<open>needle\<close>, letters compared without
  case. \<open>ci_occurs needle s\<close>: \<open>needle\<close> occurs somewhere in \<open>s\<close>, in that sense.
  \<open>first_ci_at needle pre s\<close>: in \<open>pre @ s\<close> the first occurrence of \<open>needle\<close>
  is at the start of \<open>s\<close>.
\<close>

fun ci_prefix :: "string \<Rightarrow> string \<Rightarrow> bool" where
  "ci_prefix [] s = True"
| "ci_prefix (b # needle) [] = False"
| "ci_prefix (b # needle) (a # s) = (tolower_c a = tolower_c b \<and> ci_prefix needle s)"

fun ci_occurs :: "string \<Rightarrow> string \<Rightarrow> bool" where
  "ci_occurs needle [] = ci_prefix needle []"
| "ci_occurs needle (c # s) = (ci_prefix needle (c # s) \<or> ci_occurs needle s)"

definition first_ci_at :: "string \<Rightarrow> string \<Rightarrow> string \<Rightarrow> bool" where
  "first_ci_at needle pre s \<longleftrightarrow>
     ci_prefix needle s \<and> (\<forall>i \<in> {..<length pre}. \<not> ci_prefix needle (drop i (pre @ s)))"

text \<open>
  The block of a record, from the values of its pass of the loop body, and the records
  that have an amount.
\<close>

definition record_block :: "bool \<Rightarrow> string \<Rightarrow> string list" where
  "record_block includeMemo block_start =
     qif_block includeMemo (date_text (dtposted_of block_start))
       (payee_text (name_of block_start)) (memo_of block_start)
       (filter (\<lambda>c. c \<noteq> CHR '','') (trnamt_of block_start))"

definition emitted_records :: "string \<Rightarrow> string list" where
  "emitted_records scan = filter (\<lambda>b. trnamt_of b \<noteq> []) (scan_records scan)"

section \<open>The lines of the output file\<close>

text \<open>
  The lines of a text: the pieces between its line feeds, a last piece without a line
  feed counting as a line too.
\<close>

fun file_lines :: "string \<Rightarrow> string list" where
  "file_lines [] = []"
| "file_lines (c # s) =
     (if c = CHR 0x0A then [] # file_lines s
      else (case file_lines s of [] \<Rightarrow> [[c]] | l # ls \<Rightarrow> (c # l) # ls))"

text \<open>
  The texts of the lines of a record block, without their line feeds, and the texts of
  the block of a record.
\<close>

definition qif_lines :: "bool \<Rightarrow> string \<Rightarrow> string \<Rightarrow> string \<Rightarrow> string \<Rightarrow> string list" where
  "qif_lines includeMemo date payee memo amount =
     [''D'' @ date, ''P'' @ payee]
     @ (if includeMemo \<and> memo \<noteq> [] then [''M'' @ memo] else [])
     @ [''T'' @ amount, ''C*'', ''^'']"

definition record_lines :: "bool \<Rightarrow> string \<Rightarrow> string list" where
  "record_lines includeMemo block_start =
     qif_lines includeMemo (date_text (dtposted_of block_start))
       (payee_text (name_of block_start)) (memo_of block_start)
       (filter (\<lambda>c. c \<noteq> CHR '','') (trnamt_of block_start))"

section \<open>The character classes on the bits of a byte\<close>

text \<open>
  The same three functions on the eight bits of the byte, least significant first.
  The equations are proved from the definitions above and only make evaluation on
  concrete strings faster.
\<close>

lemma tolower_c_Char [code]:
  "tolower_c (Char b0 b1 b2 b3 b4 b5 b6 b7) =
     Char b0 b1 b2 b3 b4
       (b5 \<or> (b6 \<and> \<not> b7 \<and> (b0 \<or> b1 \<or> b2 \<or> b3 \<or> b4) \<and> \<not> (b4 \<and> b3 \<and> (b2 \<or> (b1 \<and> b0)))))
       b6 b7"
  by (cases b0; cases b1; cases b2; cases b3; cases b4; cases b5; cases b6; cases b7;
      simp add: tolower_c_def char_of_eq_iff)

lemma isspace_c_Char [code]:
  "isspace_c (Char b0 b1 b2 b3 b4 b5 b6 b7) \<longleftrightarrow>
     \<not> b7 \<and> \<not> b6 \<and> \<not> b4 \<and>
     ((b5 \<and> \<not> b0 \<and> \<not> b1 \<and> \<not> b2 \<and> \<not> b3) \<or>
      (\<not> b5 \<and> b3 \<and> (b0 \<or> b1 \<or> b2) \<and> \<not> (b2 \<and> b1)))"
  by (cases b0; cases b1; cases b2; cases b3; cases b4; cases b5; cases b6; cases b7;
      simp add: isspace_c_def)

lemma isdigit_c_Char [code]:
  "isdigit_c (Char b0 b1 b2 b3 b4 b5 b6 b7) \<longleftrightarrow>
     \<not> b7 \<and> \<not> b6 \<and> b5 \<and> b4 \<and> \<not> (b3 \<and> (b2 \<or> b1))"
  by (cases b0; cases b1; cases b2; cases b3; cases b4; cases b5; cases b6; cases b7;
      simp add: isdigit_c_def)

section \<open>Date normalisation\<close>

lemma take8_split:
  "take 8 token = take 4 token @ take 2 (drop 4 token) @ take 2 (drop 6 token)"
proof -
  have "take 8 token = take (6 + 2) token" by simp
  also have "\<dots> = take 6 token @ take 2 (drop 6 token)" by (rule take_add)
  also have "take 6 token = take (4 + 2) token" by simp
  also have "\<dots> = take 4 token @ take 2 (drop 4 token)" by (rule take_add)
  finally show ?thesis by simp
qed

lemma all_digits_take8:
  "list_all isdigit_c (take 8 token) \<longleftrightarrow>
     list_all isdigit_c (take 4 token) \<and> list_all isdigit_c (take 2 (drop 4 token))
      \<and> list_all isdigit_c (take 2 (drop 6 token))"
  by (simp only: take8_split list_all_append)

lemma ofxdate_ok_iff:
  "ofxdate_to_mmddyyyy token outlen \<noteq> None \<longleftrightarrow>
     8 \<le> length token \<and> list_all isdigit_c (take 8 token) \<and> 11 \<le> outlen"
  unfolding all_digits_take8
  by (auto simp: ofxdate_to_mmddyyyy_def Let_def)

lemma ofxdate_value:
  assumes "ofxdate_to_mmddyyyy token outlen = Some d"
  shows "d = take 2 (drop 4 token) @ ''/'' @ take 2 (drop 6 token) @ ''/'' @ take 4 token"
proof -
  from assms have len: "8 \<le> length token" and out: "11 \<le> outlen"
    and d: "d = snprintf outlen (take 2 (drop 4 token) @ ''/'' @ take 2 (drop 6 token) @ ''/'' @ take 4 token)"
    by (auto simp: ofxdate_to_mmddyyyy_def Let_def split: if_splits)
  from len have "length (take 2 (drop 4 token) @ ''/'' @ take 2 (drop 6 token) @ ''/'' @ take 4 token) = 10"
    by simp
  with out d show ?thesis by (simp add: snprintf_def)
qed

text \<open>
  C4. \<open>ofxdate_to_mmddyyyy\<close> succeeds exactly when the token has at least 8 bytes, the
  first 8 are ASCII digits and the output buffer has at least 11 bytes; so a non-digit
  among the first 8 bytes, a token shorter than 8 or a buffer smaller than 11 makes it
  fail. When it succeeds the text is month (bytes 4-5), \<open>/\<close>, day (bytes 6-7),
  \<open>/\<close>, year (bytes 0-3), with no range check: \<open>99991399\<close> gives \<open>13/99/9999\<close>.
\<close>

theorem ofxdate_to_mmddyyyy_spec:
  "(ofxdate_to_mmddyyyy token outlen \<noteq> None \<longleftrightarrow>
      8 \<le> length token \<and> list_all isdigit_c (take 8 token) \<and> 11 \<le> outlen)
   \<and> (\<forall>d. ofxdate_to_mmddyyyy token outlen = Some d \<longrightarrow>
        d = take 2 (drop 4 token) @ ''/'' @ take 2 (drop 6 token) @ ''/'' @ take 4 token)
   \<and> ofxdate_to_mmddyyyy ''99991399'' 11 = Some ''13/99/9999''"
proof (intro conjI allI impI)
  show "ofxdate_to_mmddyyyy ''99991399'' 11 = Some ''13/99/9999''"
    by (simp add: ofxdate_to_mmddyyyy_def snprintf_def isdigit_c_def)
qed (rule ofxdate_ok_iff, erule ofxdate_value)

theorem ofxdate_to_mmddyyyy_spec_witness:
  "ofxdate_to_mmddyyyy ''20251128120000'' 16 = Some ''11/28/2025''
   \<and> ofxdate_to_mmddyyyy ''2025-11-28'' 16 = None
   \<and> ofxdate_to_mmddyyyy ''2025112'' 16 = None
   \<and> ofxdate_to_mmddyyyy ''20251128'' 10 = None"
proof -
  have ok: "8 \<le> length ''20251128120000'' \<and> list_all isdigit_c (take 8 ''20251128120000'') \<and> (11::nat) \<le> 16"
    by (simp add: isdigit_c_def)
  from ofxdate_to_mmddyyyy_spec [of "''20251128120000''" 16] ok
  have "ofxdate_to_mmddyyyy ''20251128120000'' 16 = Some ''11/28/2025''"
    by auto
  moreover from ofxdate_to_mmddyyyy_spec [of "''2025-11-28''" 16]
  have "ofxdate_to_mmddyyyy ''2025-11-28'' 16 = None"
    by (simp add: isdigit_c_def)
  moreover from ofxdate_to_mmddyyyy_spec [of "''2025112''" 16]
  have "ofxdate_to_mmddyyyy ''2025112'' 16 = None"
    by simp
  moreover from ofxdate_to_mmddyyyy_spec [of "''20251128''" 10]
  have "ofxdate_to_mmddyyyy ''20251128'' 10 = None"
    by simp
  ultimately show ?thesis by simp
qed


section \<open>One pass of the loop body\<close>

lemma ofxdate_prefix:
  "8 \<le> length token \<Longrightarrow> ofxdate_to_mmddyyyy (take 8 token) outlen = ofxdate_to_mmddyyyy token outlen"
  by (simp add: ofxdate_to_mmddyyyy_def Let_def drop_take)

lemma ofxdate_nonempty: "ofxdate_to_mmddyyyy token outlen = Some d \<Longrightarrow> d \<noteq> []"
  by (auto dest: ofxdate_value)

lemma fallback_convert_date:
  "fallback_date dtposted (convert_date dtposted) = date_text dtposted"
proof (cases "ofxdate_to_mmddyyyy dtposted 16")
  case None
  then show ?thesis
    by (simp add: fallback_date_def convert_date_def date_text_def strncpy_def ofxdate_prefix)
next
  case (Some d)
  with ofxdate_nonempty [OF Some] show ?thesis
    by (simp add: fallback_date_def convert_date_def date_text_def)
qed

lemma sanitize_idem: "sanitize (sanitize s) = sanitize s"
  by (simp add: sanitize_def)


lemma strip_commas_filter:
  "ai + length s < cap \<Longrightarrow> strip_commas s ai cap = filter (\<lambda>c. c \<noteq> CHR '','') s"
  by (induction s arbitrary: ai) auto

lemma extract_tag_content_length:
  "extract_tag_content start tag out_len = Some v \<Longrightarrow> 0 < out_len \<Longrightarrow> length v < out_len"
  by (auto simp: extract_tag_content_def Let_def split: if_splits option.splits)

lemma raw_field_length: "length (raw_field block_start tag) < MAX_FIELD"
  by (auto simp: raw_field_def MAX_FIELD_def split: option.splits dest: extract_tag_content_length)

lemma trim_inplace_length: "length (trim_inplace s) \<le> length s"
proof -
  have "length (dropWhile isspace_c (rev (dropWhile isspace_c s))) \<le> length (rev (dropWhile isspace_c s))"
    by (rule length_dropWhile_le)
  also have "\<dots> \<le> length s" by (simp add: length_dropWhile_le)
  finally show ?thesis by (simp add: trim_inplace_def)
qed

lemma trnamt_of_length: "length (trnamt_of block_start) < MAX_FIELD"
  unfolding trnamt_of_def
  using trim_inplace_length [of "raw_field block_start ''TRNAMT''"] raw_field_length [of block_start "''TRNAMT''"]
  by simp

lemma amt_clean_filter:
  "strip_commas (trnamt_of block_start) 0 MAX_FIELD = filter (\<lambda>c. c \<noteq> CHR '','') (trnamt_of block_start)"
  using trnamt_of_length by (simp add: strip_commas_filter)

lemma sanitize_name_of: "sanitize (name_of block_start) = name_of block_start"
  by (simp add: name_of_def sanitize_idem)

lemma stmttrn_body_skip:
  "trnamt_of block_start = [] \<Longrightarrow> stmttrn_body memoFlag block_start st = st"
  by (simp add: stmttrn_body_def trnamt_of_def Let_def)

lemma stmttrn_body_emit:
  assumes "trnamt_of block_start \<noteq> []"
  shows "stmttrn_body memoFlag block_start st =
    st\<lparr>fout := fout st @ qif_block memoFlag (date_text (dtposted_of block_start))
                 (payee_text (name_of block_start)) (memo_of block_start)
                 (filter (\<lambda>c. c \<noteq> CHR '','') (trnamt_of block_start)),
       numTransactions := numTransactions st + 1,
       printMemoWarning := printMemoWarning st \<or> (memo_of block_start \<noteq> [] \<and> \<not> memoFlag)\<rparr>"
proof -
  from assms have "trim_inplace (raw_field block_start ''TRNAMT'') \<noteq> []"
    by (simp add: trnamt_of_def)
  then show ?thesis
    using amt_clean_filter [of block_start]
    by (auto simp: stmttrn_body_def Let_def fallback_convert_date sanitize_name_of
        qif_block_def payee_text_def fprintf_def
        dtposted_of_def [symmetric] trnamt_of_def [symmetric] name_of_def [symmetric] memo_of_def [symmetric])
qed


section \<open>The loop as a fold over the records\<close>

lemma convert_loop_foldl:
  "convert_loop memoFlag scan st =
     foldl (\<lambda>s b. stmttrn_body memoFlag b s) st (scan_records scan)"
proof (induction memoFlag scan st rule: convert_loop.induct)
  case (1 memoFlag scan st)
  show ?case
  proof (cases "find_next_stmttrn scan")
    case None
    then show ?thesis
      by (subst convert_loop.simps, subst scan_records.simps) simp
  next
    case (Some r)
    obtain block_start block_after where r: "r = (block_start, block_after)"
      by (cases r)
    from "1.IH" [OF Some r [symmetric]] Some r show ?thesis
      by (subst convert_loop.simps, subst scan_records.simps) simp
  qed
qed

lemma stmttrn_body_emit':
  "trnamt_of b \<noteq> [] \<Longrightarrow> stmttrn_body memoFlag b st =
    st\<lparr>fout := fout st @ record_block memoFlag b,
       numTransactions := numTransactions st + 1,
       printMemoWarning := printMemoWarning st \<or> (memo_of b \<noteq> [] \<and> \<not> memoFlag)\<rparr>"
  by (simp add: stmttrn_body_emit record_block_def)

lemma foldl_stmttrn_body:
  "fout (foldl (\<lambda>s b. stmttrn_body memoFlag b s) st bs) =
     fout st @ concat (map (record_block memoFlag) (filter (\<lambda>b. trnamt_of b \<noteq> []) bs))
   \<and> numTransactions (foldl (\<lambda>s b. stmttrn_body memoFlag b s) st bs) =
     numTransactions st + of_nat (length (filter (\<lambda>b. trnamt_of b \<noteq> []) bs))
   \<and> (printMemoWarning (foldl (\<lambda>s b. stmttrn_body memoFlag b s) st bs) \<longleftrightarrow>
     printMemoWarning st \<or>
       (\<not> memoFlag \<and> (\<exists>b \<in> set (filter (\<lambda>b. trnamt_of b \<noteq> []) bs). memo_of b \<noteq> [])))"
proof (induction bs arbitrary: st)
  case Nil
  show ?case by simp
next
  case (Cons b bs)
  show ?case
  proof (cases "trnamt_of b = []")
    case True
    then show ?thesis by (simp add: stmttrn_body_skip Cons.IH)
  next
    case False
    then show ?thesis by (auto simp: stmttrn_body_emit' Cons.IH)
  qed
qed

lemma convert_fout:
  "fout (convert memoFlag bytes) =
     line ''!Type:Bank'' # concat (map (record_block memoFlag) (emitted_records (cstr bytes)))"
  by (simp add: convert_def convert_loop_foldl foldl_stmttrn_body emitted_records_def)

lemma convert_numTransactions:
  "numTransactions (convert memoFlag bytes) = of_nat (length (emitted_records (cstr bytes)))"
  by (simp add: convert_def convert_loop_foldl foldl_stmttrn_body emitted_records_def)



section \<open>The skip rule\<close>


lemma stmttrn_body_fout:
  "fout (stmttrn_body memoFlag b st) =
     fout st @ (if trnamt_of b = [] then [] else record_block memoFlag b)"
  by (simp add: stmttrn_body_skip stmttrn_body_emit')

text \<open>
  C10. A record dropped by the test on the amount leaves the conversion state as it
  was: the output, the counter and the memo warning flag. The test comes before the
  memo is looked at, so this holds also when the record has a memo and memos are not
  included.
\<close>

theorem empty_amount_frame:
  "trim_inplace (raw_field block_start ''TRNAMT'') = [] \<Longrightarrow>
     stmttrn_body memoFlag block_start st = st"
  by (simp add: stmttrn_body_skip trnamt_of_def)

theorem empty_amount_frame_witness:
  "trim_inplace (raw_field ''<NAME>Bob</NAME><MEMO>rent</MEMO></STMTTRN>'' ''MEMO'') = ''rent''
   \<and> stmttrn_body False ''<NAME>Bob</NAME><MEMO>rent</MEMO></STMTTRN>''
        \<lparr>fout = [line ''!Type:Bank''], numTransactions = 0, printMemoWarning = False\<rparr>
      = \<lparr>fout = [line ''!Type:Bank''], numTransactions = 0, printMemoWarning = False\<rparr>"
proof -
  have amt: "trim_inplace (raw_field ''<NAME>Bob</NAME><MEMO>rent</MEMO></STMTTRN>'' ''TRNAMT'') = []"
    by code_simp
  have memo: "trim_inplace (raw_field ''<NAME>Bob</NAME><MEMO>rent</MEMO></STMTTRN>'' ''MEMO'') = ''rent''"
    by code_simp
  from empty_amount_frame [OF amt] memo show ?thesis by simp
qed

text \<open>
  C1, on the input where the code leaves it. Two records, the first without any
  \<open>TRNAMT\<close> tag between its content start and its closing marker. The source says
  of the amount test "require at least an amount; skip if none", but the amount buffer
  was filled by a search that runs from the content start to the end of the buffer: the
  pass of the first record finds the amount of the second, writes a block for the first
  record and counts it. The run writes two blocks, both with amount 1, and counts 2.
\<close>

theorem skip_rule_failing_input:
  "find_next_stmttrn ''<STMTTRN><NAME>a</NAME></STMTTRN><STMTTRN><NAME>b</NAME><TRNAMT>1</TRNAMT></STMTTRN>''
     = Some (''<NAME>a</NAME></STMTTRN><STMTTRN><NAME>b</NAME><TRNAMT>1</TRNAMT></STMTTRN>'',
             ''<STMTTRN><NAME>b</NAME><TRNAMT>1</TRNAMT></STMTTRN>'')
   \<and> \<not> ci_occurs ''<TRNAMT>'' ''<NAME>a</NAME></STMTTRN>''
   \<and> file_lines (file_contents (convert False
         ''<STMTTRN><NAME>a</NAME></STMTTRN><STMTTRN><NAME>b</NAME><TRNAMT>1</TRNAMT></STMTTRN>''))
       = [''!Type:Bank'',
          ''D'', ''Pa'', ''T1'', ''C*'', ''^'',
          ''D'', ''Pb'', ''T1'', ''C*'', ''^'']
   \<and> numTransactions (convert False
         ''<STMTTRN><NAME>a</NAME></STMTTRN><STMTTRN><NAME>b</NAME><TRNAMT>1</TRNAMT></STMTTRN>'') = 2"
  by code_simp

section \<open>The amount\<close>

text \<open>
  C8. The amount loop returns the trimmed \<open>TRNAMT\<close> token with its commas removed
  and every other byte kept, in order, whatever the bytes are: the bound of the loop on
  \<open>amt_clean\<close> is never reached, the token being shorter than \<open>MAX_FIELD\<close>. So
  the result has no comma, and for an emitted record the block ends with the \<open>T\<close>
  line of that text, \<open>C*\<close> and \<open>^\<close>.
\<close>

theorem amount_cleaning:
  "strip_commas (trim_inplace (raw_field b ''TRNAMT'')) 0 MAX_FIELD =
     filter (\<lambda>c. c \<noteq> CHR '','') (trim_inplace (raw_field b ''TRNAMT''))
   \<and> CHR '','' \<notin> set (strip_commas (trim_inplace (raw_field b ''TRNAMT'')) 0 MAX_FIELD)
   \<and> (trim_inplace (raw_field b ''TRNAMT'') \<noteq> [] \<longrightarrow>
        (\<exists>pre. fout (stmttrn_body memoFlag b st) =
           fout st @ pre @
             [line (''T'' @ filter (\<lambda>c. c \<noteq> CHR '','') (trim_inplace (raw_field b ''TRNAMT''))),
              line ''C*'', line ''^'']))"
proof (intro conjI impI)
  show eq: "strip_commas (trim_inplace (raw_field b ''TRNAMT'')) 0 MAX_FIELD =
     filter (\<lambda>c. c \<noteq> CHR '','') (trim_inplace (raw_field b ''TRNAMT''))"
    using amt_clean_filter [of b] by (simp add: trnamt_of_def)
  show "CHR '','' \<notin> set (strip_commas (trim_inplace (raw_field b ''TRNAMT'')) 0 MAX_FIELD)"
    by (simp add: eq)
next
  assume "trim_inplace (raw_field b ''TRNAMT'') \<noteq> []"
  then have "trnamt_of b \<noteq> []" by (simp add: trnamt_of_def)
  then have "fout (stmttrn_body memoFlag b st) =
      fout st @ ([line (''D'' @ date_text (dtposted_of b)), line (''P'' @ payee_text (name_of b))]
        @ (if memoFlag \<and> memo_of b \<noteq> [] then [line (''M'' @ memo_of b)] else []))
      @ [line (''T'' @ filter (\<lambda>c. c \<noteq> CHR '','') (trim_inplace (raw_field b ''TRNAMT''))),
              line ''C*'', line ''^'']"
    by (simp add: stmttrn_body_fout record_block_def qif_block_def trnamt_of_def)
  then show "\<exists>pre. fout (stmttrn_body memoFlag b st) =
           fout st @ pre @
             [line (''T'' @ filter (\<lambda>c. c \<noteq> CHR '','') (trim_inplace (raw_field b ''TRNAMT''))),
              line ''C*'', line ''^'']"
    by blast
qed

theorem amount_cleaning_witness:
  "trim_inplace (raw_field ''<TRNAMT> -1,234,567.89 USD </TRNAMT></STMTTRN>'' ''TRNAMT'')
     = ''-1,234,567.89 USD''
   \<and> strip_commas ''-1,234,567.89 USD'' 0 MAX_FIELD = ''-1234567.89 USD''
   \<and> (\<exists>pre. fout (stmttrn_body False ''<TRNAMT> -1,234,567.89 USD </TRNAMT></STMTTRN>''
              \<lparr>fout = [], numTransactions = 0, printMemoWarning = False\<rparr>)
          = pre @ [''T-1234567.89 USD\<newline>'', ''C*\<newline>'', ''^\<newline>''])"
proof -
  have amt: "trim_inplace (raw_field ''<TRNAMT> -1,234,567.89 USD </TRNAMT></STMTTRN>'' ''TRNAMT'')
     = ''-1,234,567.89 USD''"
    by code_simp
  have lines: "line ''T-1234567.89 USD'' = ''T-1234567.89 USD\<newline>''"
    "line ''C*'' = ''C*\<newline>''" "line ''^'' = ''^\<newline>''"
    by (simp_all add: line_def)
  from amount_cleaning [of "''<TRNAMT> -1,234,567.89 USD </TRNAMT></STMTTRN>''" False
      "\<lparr>fout = [], numTransactions = 0, printMemoWarning = False\<rparr>"] amt lines
  show ?thesis by simp
qed

section \<open>The case-insensitive search\<close>

lemma tolower_c_NUL: "tolower_c c = CHR 0x00 \<longleftrightarrow> c = CHR 0x00"
  by (cases c) (auto simp: tolower_c_Char)

lemma strncasecmp_zero_iff:
  "CHR 0x00 \<notin> set needle \<Longrightarrow> strncasecmp s needle (length needle) = 0 \<longleftrightarrow> ci_prefix needle s"
proof (induction needle s rule: ci_prefix.induct)
  case (1 s)
  show ?case by simp
next
  case (2 b needle)
  then have "tolower_c b \<noteq> CHR 0x00" by (auto simp: tolower_c_NUL)
  then have "(of_char (tolower_c b) :: nat) \<noteq> of_char (CHR 0x00)"
    by (simp only: of_char_eq_iff not_False_eq_True)
  then show ?case by simp
next
  case (3 b needle a s)
  then show ?case by auto
qed

lemma ci_prefix_deref:
  "needle \<noteq> [] \<Longrightarrow> ci_prefix needle (c # s) \<Longrightarrow> tolower_c c = tolower_c (deref needle)"
  by (cases needle) (simp_all add: deref_def)

lemma scan_test_iff:
  assumes "needle \<noteq> []" "CHR 0x00 \<notin> set needle"
  shows "tolower_c c = tolower_c (deref needle) \<and> strncasecmp (c # hay) needle (length needle) = 0
           \<longleftrightarrow> ci_prefix needle (c # hay)"
  using assms ci_prefix_deref [of needle c hay] by (auto simp: strncasecmp_zero_iff)

lemma ci_occurs_iff: "ci_occurs needle hay \<longleftrightarrow> (\<exists>i. ci_prefix needle (drop i hay))"
proof (induction hay)
  case Nil
  show ?case by simp
next
  case (Cons c hay)
  show ?case
  proof
    assume "ci_occurs needle (c # hay)"
    then consider "ci_prefix needle (c # hay)" | "ci_occurs needle hay" by auto
    then show "\<exists>i. ci_prefix needle (drop i (c # hay))"
    proof cases
      case 1
      then have "ci_prefix needle (drop 0 (c # hay))" by simp
      then show ?thesis by blast
    next
      case 2
      with Cons.IH obtain i where "ci_prefix needle (drop i hay)" by blast
      then have "ci_prefix needle (drop (Suc i) (c # hay))" by simp
      then show ?thesis by blast
    qed
  next
    assume "\<exists>i. ci_prefix needle (drop i (c # hay))"
    then obtain i where i: "ci_prefix needle (drop i (c # hay))" by blast
    show "ci_occurs needle (c # hay)"
    proof (cases i)
      case 0
      with i show ?thesis by simp
    next
      case (Suc j)
      with i have "ci_prefix needle (drop j hay)" by simp
      with Cons.IH show ?thesis by auto
    qed
  qed
qed

lemma strcasestr_scan_None_iff:
  assumes "needle \<noteq> []" "CHR 0x00 \<notin> set needle"
  shows "strcasestr_scan hay needle (length needle) = None \<longleftrightarrow> \<not> ci_occurs needle hay"
proof (induction hay)
  case Nil
  from assms(1) show ?case by (cases needle) simp_all
next
  case (Cons c hay)
  then show ?case using scan_test_iff [OF assms, of c hay] by auto
qed

lemma first_ci_at_Nil: "first_ci_at needle [] s \<longleftrightarrow> ci_prefix needle s"
  by (simp add: first_ci_at_def)

lemma first_ci_at_Cons:
  "first_ci_at needle (c # pre) s \<longleftrightarrow>
     \<not> ci_prefix needle (c # pre @ s) \<and> first_ci_at needle pre s"
proof -
  have "(\<forall>i \<in> {..<Suc (length pre)}. \<not> ci_prefix needle (drop i (c # pre @ s))) \<longleftrightarrow>
        \<not> ci_prefix needle (c # pre @ s) \<and> (\<forall>i \<in> {..<length pre}. \<not> ci_prefix needle (drop i (pre @ s)))"
    (is "?L \<longleftrightarrow> ?R")
  proof
    assume L: ?L
    have "\<not> ci_prefix needle (drop 0 (c # pre @ s))" using L by blast
    moreover have "\<not> ci_prefix needle (drop i (pre @ s))" if "i < length pre" for i
    proof -
      from that have "Suc i \<in> {..<Suc (length pre)}" by simp
      with L have "\<not> ci_prefix needle (drop (Suc i) (c # pre @ s))" by blast
      then show ?thesis by simp
    qed
    ultimately show ?R by simp
  next
    assume R: ?R
    show ?L
    proof
      fix i assume "i \<in> {..<Suc (length pre)}"
      then show "\<not> ci_prefix needle (drop i (c # pre @ s))"
        using R by (cases i) auto
    qed
  qed
  then show ?thesis by (auto simp: first_ci_at_def)
qed

lemma strcasestr_scan_Some_iff:
  assumes "needle \<noteq> []" "CHR 0x00 \<notin> set needle"
  shows "strcasestr_scan hay needle (length needle) = Some s \<longleftrightarrow>
           (\<exists>pre. hay = pre @ s \<and> first_ci_at needle pre s)"
proof (induction hay)
  case Nil
  from assms(1) show ?case by (cases needle) (auto simp: first_ci_at_def)
next
  case (Cons c hay)
  show ?case
  proof (cases "ci_prefix needle (c # hay)")
    case True
    then have "strcasestr_scan (c # hay) needle (length needle) = Some (c # hay)"
      using scan_test_iff [OF assms, of c hay] by simp
    moreover have "(\<exists>pre. c # hay = pre @ s \<and> first_ci_at needle pre s) \<longleftrightarrow> s = c # hay"
    proof
      assume "\<exists>pre. c # hay = pre @ s \<and> first_ci_at needle pre s"
      then obtain pre where pre: "c # hay = pre @ s" "first_ci_at needle pre s" by blast
      show "s = c # hay"
      proof (cases pre)
        case Nil
        with pre show ?thesis by simp
      next
        case (Cons x pre')
        with pre True show ?thesis by (auto simp: first_ci_at_Cons)
      qed
    next
      assume "s = c # hay"
      with True have "c # hay = [] @ s \<and> first_ci_at needle [] s" by (simp add: first_ci_at_Nil)
      then show "\<exists>pre. c # hay = pre @ s \<and> first_ci_at needle pre s" by blast
    qed
    ultimately show ?thesis by auto
  next
    case False
    then have "strcasestr_scan (c # hay) needle (length needle) = strcasestr_scan hay needle (length needle)"
      using scan_test_iff [OF assms, of c hay] by auto
    moreover have "(\<exists>pre. c # hay = pre @ s \<and> first_ci_at needle pre s) \<longleftrightarrow>
        (\<exists>pre. hay = pre @ s \<and> first_ci_at needle pre s)"
    proof
      assume "\<exists>pre. c # hay = pre @ s \<and> first_ci_at needle pre s"
      then obtain pre where pre: "c # hay = pre @ s" "first_ci_at needle pre s" by blast
      show "\<exists>pre. hay = pre @ s \<and> first_ci_at needle pre s"
      proof (cases pre)
        case Nil
        with pre False show ?thesis by (simp add: first_ci_at_Nil)
      next
        case (Cons x pre')
        with pre have "hay = pre' @ s \<and> first_ci_at needle pre' s"
          by (simp add: first_ci_at_Cons)
        then show ?thesis by blast
      qed
    next
      assume "\<exists>pre. hay = pre @ s \<and> first_ci_at needle pre s"
      then obtain pre where "hay = pre @ s" "first_ci_at needle pre s" by blast
      with False have "c # hay = (c # pre) @ s \<and> first_ci_at needle (c # pre) s"
        by (simp add: first_ci_at_Cons)
      then show "\<exists>pre. c # hay = pre @ s \<and> first_ci_at needle pre s" by blast
    qed
    ultimately show ?thesis using Cons.IH by simp
  qed
qed

lemma strcasestr_simple_Some_iff:
  assumes "needle \<noteq> []" "CHR 0x00 \<notin> set needle"
  shows "strcasestr_simple hay needle = Some s \<longleftrightarrow>
           (\<exists>pre. hay = pre @ s \<and> first_ci_at needle pre s)"
  using assms strcasestr_scan_Some_iff [OF assms] by (simp add: strcasestr_simple_def)

lemma strcasestr_simple_None_iff:
  assumes "needle \<noteq> []" "CHR 0x00 \<notin> set needle"
  shows "strcasestr_simple hay needle = None \<longleftrightarrow> \<not> ci_occurs needle hay"
  using assms strcasestr_scan_None_iff [OF assms] by (simp add: strcasestr_simple_def)


section \<open>Tag extraction\<close>

lemma snprintf_fit: "length s < n \<Longrightarrow> snprintf n s = s"
  by (simp add: snprintf_def)

lemma take_copylen:
  assumes "0 < out_len"
  shows "take (if n \<ge> out_len then out_len - 1 else n) p = take (out_len - 1) (take n p)"
proof (cases "n \<ge> out_len")
  case True
  with assms have "min (out_len - 1) n = out_len - 1" by simp
  with True show ?thesis by simp
next
  case False
  with assms have "min (out_len - 1) n = n" by simp
  with False show ?thesis by simp
qed

lemma length_minus_dropWhile:
  "take (length p - length (dropWhile P p)) p = takeWhile P p"
proof -
  have "length p - length (dropWhile P p) = length (takeWhile P p)"
    by (metis add_diff_cancel_right' length_append takeWhile_dropWhile_id)
  then show ?thesis by (metis append_eq_conv_conj takeWhile_dropWhile_id)
qed

lemma copy_until:
  assumes "0 < out_len"
  shows "take (if length p - length (dropWhile P p) \<ge> out_len then out_len - 1
               else length p - length (dropWhile P p)) p
         = take (out_len - 1) (takeWhile P p)"
  by (simp only: take_copylen [OF assms] length_minus_dropWhile)


lemma extract_open_only:
  assumes fit: "length tag + 3 < 64" and nul: "CHR 0x00 \<notin> set tag" and len: "0 < out_len"
    and start: "start = pre @ p" and first: "first_ci_at (''<'' @ tag @ ''>'') pre p"
    and noclose: "\<not> ci_occurs (''</'' @ tag @ ''>'') (drop (length tag + 2) p)"
  shows "extract_tag_content start tag out_len =
           Some (take (out_len - 1) (takeWhile (\<lambda>c. c \<noteq> CHR ''<'') (drop (length tag + 2) p)))"
proof -
  have opn: "strcasestr_simple start (''<'' @ tag @ ''>'') = Some p"
    using nul start first by (subst strcasestr_simple_Some_iff) auto
  have cls: "strcasestr_simple (drop (length tag + 2) p) (''</'' @ tag @ ''>'') = None"
    using nul noclose by (subst strcasestr_simple_None_iff) auto
  show ?thesis
    using fit opn cls
    by (simp add: extract_tag_content_def Let_def snprintf_fit copy_until [OF len]
        del: length_drop)
qed



lemma ci_occurs_replicate:
  "tolower_c c \<noteq> tolower_c b \<Longrightarrow> \<not> ci_occurs (b # needle) (replicate n c)"
  by (induction n) auto

text \<open>
  C5, as the code has it. When the first open marker \<open><tag>\<close> of the slice has no
  close marker \<open></tag>\<close> after it, \<open>extract_tag_content\<close> returns the text from the
  end of that open marker up to the next \<open><\<close>, or to the end of the slice when there
  is none, cut to its first \<open>out_len - 1\<close> bytes. The tag name has at most 60 bytes:
  the function returns 0 for a longer one.
\<close>

theorem extract_unterminated:
  assumes "length tag + 3 < 64" and "CHR 0x00 \<notin> set tag" and "0 < out_len"
    and "start = pre @ p" and "first_ci_at (''<'' @ tag @ ''>'') pre p"
    and "\<not> ci_occurs (''</'' @ tag @ ''>'') (drop (length tag + 2) p)"
  shows "extract_tag_content start tag out_len =
           Some (take (out_len - 1) (takeWhile (\<lambda>c. c \<noteq> CHR ''<'') (drop (length tag + 2) p)))"
  using assms by (rule extract_open_only)

theorem extract_unterminated_witness:
  "extract_tag_content ''<stmttrn><NAME>Alice<MEMO>lunch'' ''NAME'' MAX_FIELD = Some ''Alice''"
proof -
  have fit: "length ''NAME'' + 3 < 64" and nul: "CHR 0x00 \<notin> set ''NAME''"
    and len: "0 < MAX_FIELD"
    by (simp_all add: MAX_FIELD_def)
  have start: "''<stmttrn><NAME>Alice<MEMO>lunch'' = ''<stmttrn>'' @ ''<NAME>Alice<MEMO>lunch''"
    by simp
  have first: "first_ci_at (''<'' @ ''NAME'' @ ''>'') ''<stmttrn>'' ''<NAME>Alice<MEMO>lunch''"
    by code_simp
  have noclose: "\<not> ci_occurs (''</'' @ ''NAME'' @ ''>'') (drop (length ''NAME'' + 2) ''<NAME>Alice<MEMO>lunch'')"
    by code_simp
  from extract_unterminated [OF fit nul len start first noclose]
  show ?thesis by (simp add: MAX_FIELD_def)
qed

text \<open>
  An open marker followed by 4096 bytes with no \<open><\<close> among them: the field buffer of
  \<open>MAX_FIELD\<close> bytes receives the first 4095 of them, not the whole text.
\<close>

theorem extract_unterminated_counterexample:
  "first_ci_at ''<NAME>'' [] (''<NAME>'' @ replicate 4096 (CHR ''a''))
   \<and> \<not> ci_occurs ''</NAME>'' (replicate 4096 (CHR ''a''))
   \<and> CHR ''<'' \<notin> set (replicate 4096 (CHR ''a''))
   \<and> extract_tag_content (''<NAME>'' @ replicate 4096 (CHR ''a'')) ''NAME'' MAX_FIELD
       = Some (replicate 4095 (CHR ''a''))
   \<and> replicate 4095 (CHR ''a'') \<noteq> replicate 4096 (CHR ''a'')"
proof -
  have differ: "replicate 4095 (CHR ''a'') \<noteq> replicate 4096 (CHR ''a'')"
  proof
    assume "replicate 4095 (CHR ''a'') = replicate 4096 (CHR ''a'')"
    then have "length (replicate 4095 (CHR ''a'')) = length (replicate 4096 (CHR ''a''))"
      by (rule arg_cong)
    then show False by simp
  qed
  have first: "first_ci_at (''<'' @ ''NAME'' @ ''>'') [] (''<NAME>'' @ replicate 4096 (CHR ''a''))"
    by (simp add: first_ci_at_Nil)
  have noclose: "\<not> ci_occurs ''</NAME>'' (replicate 4096 (CHR ''a''))"
    by (rule ci_occurs_replicate) (simp add: tolower_c_Char)
  then have noclose': "\<not> ci_occurs (''</'' @ ''NAME'' @ ''>'')
      (drop (length ''NAME'' + 2) (''<NAME>'' @ replicate 4096 (CHR ''a'')))"
    by simp
  have "extract_tag_content ([] @ ''<NAME>'' @ replicate 4096 (CHR ''a'')) ''NAME'' MAX_FIELD =
      Some (take (MAX_FIELD - 1) (takeWhile (\<lambda>c. c \<noteq> CHR ''<'')
        (drop (length ''NAME'' + 2) (''<NAME>'' @ replicate 4096 (CHR ''a'')))))"
    by (rule extract_open_only [OF _ _ _ refl first noclose']) (simp_all add: MAX_FIELD_def)
  then have "extract_tag_content (''<NAME>'' @ replicate 4096 (CHR ''a'')) ''NAME'' MAX_FIELD
       = Some (replicate 4095 (CHR ''a''))"
    by (simp add: MAX_FIELD_def)
  with first noclose differ show ?thesis by simp
qed

section \<open>The record locator\<close>

lemma ci_prefix_length: "ci_prefix needle s \<Longrightarrow> length needle \<le> length s"
  by (induction needle s rule: ci_prefix.induct) auto

lemma strchr_Some_iff:
  assumes "c \<noteq> CHR 0x00"
  shows "strchr s c = Some r \<longleftrightarrow> (\<exists>pre t. s = pre @ c # t \<and> r = c # t \<and> c \<notin> set pre)"
proof
  assume "strchr s c = Some r"
  from strchr_split [OF assms this] show "\<exists>pre t. s = pre @ c # t \<and> r = c # t \<and> c \<notin> set pre"
    by auto
next
  assume "\<exists>pre t. s = pre @ c # t \<and> r = c # t \<and> c \<notin> set pre"
  then obtain pre t where "s = pre @ c # t" "r = c # t" "c \<notin> set pre" by blast
  then show "strchr s c = Some r"
    by (induction pre arbitrary: s) auto
qed

lemma strchr_None_iff:
  assumes "c \<noteq> CHR 0x00"
  shows "strchr s c = None \<longleftrightarrow> c \<notin> set s"
  using assms by (induction s) auto

lemma find_open:
  "strcasestr_simple buf ''<STMTTRN'' = Some p \<longleftrightarrow>
     (\<exists>pre. buf = pre @ p \<and> first_ci_at ''<STMTTRN'' pre p)"
  by (rule strcasestr_simple_Some_iff) simp_all

lemma find_close:
  "strcasestr_simple s ''</STMTTRN>'' = Some q \<longleftrightarrow>
     (\<exists>body. s = body @ q \<and> first_ci_at ''</STMTTRN>'' body q)"
  by (rule strcasestr_simple_Some_iff) simp_all

lemma no_open:
  "strcasestr_simple buf ''<STMTTRN'' = None \<longleftrightarrow> \<not> ci_occurs ''<STMTTRN'' buf"
  by (rule strcasestr_simple_None_iff) simp_all

lemma no_close:
  "strcasestr_simple s ''</STMTTRN>'' = None \<longleftrightarrow> \<not> ci_occurs ''</STMTTRN>'' s"
  by (rule strcasestr_simple_None_iff) simp_all

lemma find_next_stmttrn_Some_iff:
  "find_next_stmttrn buf = Some (block_start, block_after) \<longleftrightarrow>
     (\<exists>pre tag body cls.
        buf = pre @ tag @ ''>'' @ block_start
        \<and> first_ci_at ''<STMTTRN'' pre (tag @ ''>'' @ block_start)
        \<and> CHR ''>'' \<notin> set tag
        \<and> block_start = body @ cls @ block_after
        \<and> length cls = length ''</STMTTRN>''
        \<and> first_ci_at ''</STMTTRN>'' body (cls @ block_after))"
  (is "?L \<longleftrightarrow> ?R")
proof
  assume ?L
  then obtain p gt q where
    p: "strcasestr_simple buf ''<STMTTRN'' = Some p" and
    gt: "strchr p (CHR ''>'') = Some gt" and
    q: "strcasestr_simple (drop 1 gt) ''</STMTTRN>'' = Some q" and
    bs: "block_start = drop 1 gt" and
    ba: "block_after = drop (length ''</STMTTRN>'') q"
    by (auto simp: find_next_stmttrn_def Let_def split: option.splits)
  from p obtain pre where pre: "buf = pre @ p" "first_ci_at ''<STMTTRN'' pre p"
    unfolding find_open by blast
  from gt obtain tag t where tag: "p = tag @ CHR ''>'' # t" "gt = CHR ''>'' # t" "CHR ''>'' \<notin> set tag"
    by (auto simp: strchr_Some_iff)
  from bs tag have t: "t = block_start" by simp
  from q bs obtain body where body: "block_start = body @ q" "first_ci_at ''</STMTTRN>'' body q"
    unfolding find_close by auto
  from body(2) have "length ''</STMTTRN>'' \<le> length q"
    by (auto simp: first_ci_at_def dest: ci_prefix_length)
  then have cls: "q = take (length ''</STMTTRN>'') q @ block_after"
    "length (take (length ''</STMTTRN>'') q) = length ''</STMTTRN>''"
    using ba by simp_all
  from pre tag t body cls
  have "buf = pre @ tag @ ''>'' @ block_start
        \<and> first_ci_at ''<STMTTRN'' pre (tag @ ''>'' @ block_start)
        \<and> CHR ''>'' \<notin> set tag
        \<and> block_start = body @ take (length ''</STMTTRN>'') q @ block_after
        \<and> length (take (length ''</STMTTRN>'') q) = length ''</STMTTRN>''
        \<and> first_ci_at ''</STMTTRN>'' body (take (length ''</STMTTRN>'') q @ block_after)"
    by simp
  then show ?R by blast
next
  assume ?R
  then obtain pre tag body cls where
    buf: "buf = pre @ tag @ ''>'' @ block_start" and
    first: "first_ci_at ''<STMTTRN'' pre (tag @ ''>'' @ block_start)" and
    tag: "CHR ''>'' \<notin> set tag" and
    bs: "block_start = body @ cls @ block_after" and
    len: "length cls = length ''</STMTTRN>''" and
    close: "first_ci_at ''</STMTTRN>'' body (cls @ block_after)"
    by blast
  from buf first have p: "strcasestr_simple buf ''<STMTTRN'' = Some (tag @ ''>'' @ block_start)"
    unfolding find_open by blast
  from tag have gt: "strchr (tag @ ''>'' @ block_start) (CHR ''>'') = Some (CHR ''>'' # block_start)"
    by (subst strchr_Some_iff) auto
  from bs close have q: "strcasestr_simple block_start ''</STMTTRN>'' = Some (cls @ block_after)"
    unfolding find_close by blast
  from p gt q len show ?L
    by (simp add: find_next_stmttrn_def)
qed

lemma find_next_stmttrn_None_iff:
  "find_next_stmttrn buf = None \<longleftrightarrow>
     \<not> ci_occurs ''<STMTTRN'' buf
     \<or> (\<exists>pre p. buf = pre @ p \<and> first_ci_at ''<STMTTRN'' pre p
           \<and> (CHR ''>'' \<notin> set p
               \<or> (\<exists>tag rest. p = tag @ ''>'' @ rest \<and> CHR ''>'' \<notin> set tag
                     \<and> \<not> ci_occurs ''</STMTTRN>'' rest)))"
  (is "?L \<longleftrightarrow> ?A \<or> ?B")
proof (cases "strcasestr_simple buf ''<STMTTRN''")
  case None
  then have ?A using no_open [of buf] by blast
  moreover from None have ?L by (simp add: find_next_stmttrn_def)
  ultimately show ?thesis by simp
next
  case (Some p)
  then have occ: "\<not> ?A" using no_open [of buf] by simp
  from Some obtain pre where pre: "buf = pre @ p" "first_ci_at ''<STMTTRN'' pre p"
    unfolding find_open by blast
  have uniq: "p' = p" if "buf = pre' @ p'" "first_ci_at ''<STMTTRN'' pre' p'" for pre' p'
  proof -
    from that have "strcasestr_simple buf ''<STMTTRN'' = Some p'" unfolding find_open by blast
    with Some show ?thesis by simp
  qed
  show ?thesis
  proof (cases "strchr p (CHR ''>'')")
    case None
    then have nogt: "CHR ''>'' \<notin> set p" by (simp add: strchr_None_iff)
    with pre have ?B by blast
    moreover from Some None have ?L by (simp add: find_next_stmttrn_def)
    ultimately show ?thesis by simp
  next
    case gt: (Some gt)
    then obtain tag t where tag: "p = tag @ CHR ''>'' # t" "gt = CHR ''>'' # t" "CHR ''>'' \<notin> set tag"
      by (auto simp: strchr_Some_iff)
    have L: "?L \<longleftrightarrow> \<not> ci_occurs ''</STMTTRN>'' t"
      using Some gt tag no_close [of t]
      by (auto simp: find_next_stmttrn_def split: option.splits)
    have "?B \<longleftrightarrow> \<not> ci_occurs ''</STMTTRN>'' t"
    proof
      assume ?B
      then obtain pre' p' where p': "buf = pre' @ p'" "first_ci_at ''<STMTTRN'' pre' p'"
        and alt: "CHR ''>'' \<notin> set p'
               \<or> (\<exists>tag rest. p' = tag @ ''>'' @ rest \<and> CHR ''>'' \<notin> set tag
                     \<and> \<not> ci_occurs ''</STMTTRN>'' rest)"
        by blast
      from uniq [OF p'] have eq: "p' = p" .
      from tag have "CHR ''>'' \<in> set p" by simp
      with alt eq obtain tag' rest where rest: "p = tag' @ ''>'' @ rest" "CHR ''>'' \<notin> set tag'"
        "\<not> ci_occurs ''</STMTTRN>'' rest" by blast
      from rest(1,2) have "strchr p (CHR ''>'') = Some (CHR ''>'' # rest)"
        by (subst strchr_Some_iff) auto
      with gt tag have "rest = t" by simp
      with rest show "\<not> ci_occurs ''</STMTTRN>'' t" by simp
    next
      assume "\<not> ci_occurs ''</STMTTRN>'' t"
      with tag have "p = tag @ ''>'' @ t \<and> CHR ''>'' \<notin> set tag \<and> \<not> ci_occurs ''</STMTTRN>'' t"
        by simp
      with pre show ?B by blast
    qed
    with L occ show ?thesis by simp
  qed
qed


text \<open>
  C6. \<open>find_next_stmttrn\<close> returns a span exactly when the buffer reads: some text
  \<open>pre\<close>, the first occurrence of \<open><STMTTRN\<close> (letters in any case) with what
  follows it up to the first \<open>>\<close>, that \<open>>\<close>, the content \<open>body\<close>, the first
  occurrence of \<open></STMTTRN>\<close> (in any case) after the \<open>>\<close>, and the rest. The
  content start is right after the \<open>>\<close> and \<open>block_after\<close> right after the closing
  marker. It returns nothing exactly when the open marker, the \<open>>\<close> after it or the
  closing marker after that is missing. The loop returns its state the first time the
  locator returns nothing, and otherwise goes on from \<open>block_after\<close>.
\<close>

theorem record_locator_spec:
  "(find_next_stmttrn buf = Some (block_start, block_after) \<longleftrightarrow>
      (\<exists>pre tag body cls.
         buf = pre @ tag @ ''>'' @ block_start
         \<and> first_ci_at ''<STMTTRN'' pre (tag @ ''>'' @ block_start)
         \<and> CHR ''>'' \<notin> set tag
         \<and> block_start = body @ cls @ block_after
         \<and> length cls = length ''</STMTTRN>''
         \<and> first_ci_at ''</STMTTRN>'' body (cls @ block_after)))
   \<and> (find_next_stmttrn buf = None \<longleftrightarrow>
        \<not> ci_occurs ''<STMTTRN'' buf
        \<or> (\<exists>pre p. buf = pre @ p \<and> first_ci_at ''<STMTTRN'' pre p
              \<and> (CHR ''>'' \<notin> set p
                  \<or> (\<exists>tag rest. p = tag @ ''>'' @ rest \<and> CHR ''>'' \<notin> set tag
                        \<and> \<not> ci_occurs ''</STMTTRN>'' rest))))
   \<and> (find_next_stmttrn buf = None \<longrightarrow> convert_loop memoFlag buf st = st)
   \<and> (find_next_stmttrn buf = Some (block_start, block_after) \<longrightarrow>
        convert_loop memoFlag buf st =
          convert_loop memoFlag block_after (stmttrn_body memoFlag block_start st))"
proof (intro conjI impI)
  show "find_next_stmttrn buf = Some (block_start, block_after) \<longleftrightarrow>
      (\<exists>pre tag body cls.
         buf = pre @ tag @ ''>'' @ block_start
         \<and> first_ci_at ''<STMTTRN'' pre (tag @ ''>'' @ block_start)
         \<and> CHR ''>'' \<notin> set tag
         \<and> block_start = body @ cls @ block_after
         \<and> length cls = length ''</STMTTRN>''
         \<and> first_ci_at ''</STMTTRN>'' body (cls @ block_after))"
    by (rule find_next_stmttrn_Some_iff)
  show "find_next_stmttrn buf = None \<longleftrightarrow>
        \<not> ci_occurs ''<STMTTRN'' buf
        \<or> (\<exists>pre p. buf = pre @ p \<and> first_ci_at ''<STMTTRN'' pre p
              \<and> (CHR ''>'' \<notin> set p
                  \<or> (\<exists>tag rest. p = tag @ ''>'' @ rest \<and> CHR ''>'' \<notin> set tag
                        \<and> \<not> ci_occurs ''</STMTTRN>'' rest)))"
    by (rule find_next_stmttrn_None_iff)
next
  assume "find_next_stmttrn buf = None"
  then show "convert_loop memoFlag buf st = st"
    by (subst convert_loop.simps) simp
next
  assume "find_next_stmttrn buf = Some (block_start, block_after)"
  then show "convert_loop memoFlag buf st =
          convert_loop memoFlag block_after (stmttrn_body memoFlag block_start st)"
    by (subst convert_loop.simps) simp
qed

theorem record_locator_spec_witness:
  "find_next_stmttrn ''x<stmttrn id=1>abc</StmtTrn>rest'' = Some (''abc</StmtTrn>rest'', ''rest'')
   \<and> find_next_stmttrn ''<STMTTRN>abc'' = None
   \<and> convert_loop True ''<STMTTRN>abc''
        \<lparr>fout = [line ''!Type:Bank''], numTransactions = 0, printMemoWarning = False\<rparr>
       = \<lparr>fout = [line ''!Type:Bank''], numTransactions = 0, printMemoWarning = False\<rparr>"
proof -
  have o1: "first_ci_at ''<STMTTRN'' ''x'' (''<stmttrn id=1'' @ ''>'' @ ''abc</StmtTrn>rest'')"
    by code_simp
  have c1: "first_ci_at ''</STMTTRN>'' ''abc'' (''</StmtTrn>'' @ ''rest'')"
    by code_simp
  have "''x<stmttrn id=1>abc</StmtTrn>rest'' = ''x'' @ ''<stmttrn id=1'' @ ''>'' @ ''abc</StmtTrn>rest''
         \<and> first_ci_at ''<STMTTRN'' ''x'' (''<stmttrn id=1'' @ ''>'' @ ''abc</StmtTrn>rest'')
         \<and> CHR ''>'' \<notin> set ''<stmttrn id=1''
         \<and> ''abc</StmtTrn>rest'' = ''abc'' @ ''</StmtTrn>'' @ ''rest''
         \<and> length ''</StmtTrn>'' = length ''</STMTTRN>''
         \<and> first_ci_at ''</STMTTRN>'' ''abc'' (''</StmtTrn>'' @ ''rest'')"
    using o1 c1 by simp
  then have "\<exists>pre tag body cls.
         ''x<stmttrn id=1>abc</StmtTrn>rest'' = pre @ tag @ ''>'' @ ''abc</StmtTrn>rest''
         \<and> first_ci_at ''<STMTTRN'' pre (tag @ ''>'' @ ''abc</StmtTrn>rest'')
         \<and> CHR ''>'' \<notin> set tag
         \<and> ''abc</StmtTrn>rest'' = body @ cls @ ''rest''
         \<and> length cls = length ''</STMTTRN>''
         \<and> first_ci_at ''</STMTTRN>'' body (cls @ ''rest'')"
    by blast
  with record_locator_spec [of "''x<stmttrn id=1>abc</StmtTrn>rest''" "''abc</StmtTrn>rest''" "''rest''"]
  have found: "find_next_stmttrn ''x<stmttrn id=1>abc</StmtTrn>rest'' = Some (''abc</StmtTrn>rest'', ''rest'')"
    by blast
  have o2: "first_ci_at ''<STMTTRN'' [] ''<STMTTRN>abc''" by code_simp
  have c2: "\<not> ci_occurs ''</STMTTRN>'' ''abc''" by code_simp
  have "''<STMTTRN>abc'' = [] @ ''<STMTTRN>abc'' \<and> first_ci_at ''<STMTTRN'' [] ''<STMTTRN>abc''
      \<and> ''<STMTTRN>abc'' = ''<STMTTRN'' @ ''>'' @ ''abc'' \<and> CHR ''>'' \<notin> set ''<STMTTRN''
      \<and> \<not> ci_occurs ''</STMTTRN>'' ''abc''"
    using o2 c2 by simp
  then have "\<exists>pre p. ''<STMTTRN>abc'' = pre @ p \<and> first_ci_at ''<STMTTRN'' pre p
              \<and> (CHR ''>'' \<notin> set p
                  \<or> (\<exists>tag rest. p = tag @ ''>'' @ rest \<and> CHR ''>'' \<notin> set tag
                        \<and> \<not> ci_occurs ''</STMTTRN>'' rest))"
    by blast
  with record_locator_spec [of "''<STMTTRN>abc''"]
  have absent: "find_next_stmttrn ''<STMTTRN>abc'' = None"
    by blast
  with record_locator_spec [of "''<STMTTRN>abc''" _ _ True
      "\<lparr>fout = [line ''!Type:Bank''], numTransactions = 0, printMemoWarning = False\<rparr>"]
  have "convert_loop True ''<STMTTRN>abc''
        \<lparr>fout = [line ''!Type:Bank''], numTransactions = 0, printMemoWarning = False\<rparr>
       = \<lparr>fout = [line ''!Type:Bank''], numTransactions = 0, printMemoWarning = False\<rparr>"
    by blast
  with found absent show ?thesis by blast
qed

text \<open>The records are met in the order of the buffer.\<close>

lemma find_next_stmttrn_suffixes:
  assumes "find_next_stmttrn scan = Some (block_start, block_after)"
  shows "(\<exists>u. scan = u @ block_start) \<and> length block_after < length block_start"
proof -
  from assms obtain pre tag body cls where
    "scan = pre @ tag @ ''>'' @ block_start" "block_start = body @ cls @ block_after"
    "length cls = length ''</STMTTRN>''"
    unfolding find_next_stmttrn_Some_iff by blast
  then have "scan = (pre @ tag @ ''>'') @ block_start" "length block_after < length block_start"
    by simp_all
  then show ?thesis by blast
qed

lemma scan_records_suffix:
  "b \<in> set (scan_records scan) \<Longrightarrow> \<exists>u. scan = u @ b"
proof (induction scan arbitrary: b rule: scan_records.induct)
  case (1 scan)
  show ?case
  proof (cases "find_next_stmttrn scan")
    case None
    with "1.prems" show ?thesis by (subst (asm) scan_records.simps) simp
  next
    case (Some r)
    obtain block_start block_after where r: "r = (block_start, block_after)" by (cases r)
    from find_next_stmttrn_suffixes [OF Some [unfolded r]]
    obtain u where u: "scan = u @ block_start" and shorter: "length block_after < length block_start"
      by blast
    from Some [unfolded r] find_next_stmttrn_Some_iff [of scan block_start block_after]
    obtain v where v: "block_start = v @ block_after" by auto
    from "1.prems" Some r have "b = block_start \<or> b \<in> set (scan_records block_after)"
      by (subst (asm) scan_records.simps) simp
    then show ?thesis
    proof
      assume "b = block_start"
      with u show ?thesis by blast
    next
      assume "b \<in> set (scan_records block_after)"
      from "1.IH" [OF Some r [symmetric] this] obtain w where "block_after = w @ b" by blast
      with u v have "scan = (u @ v @ w) @ b" by simp
      then show ?thesis by blast
    qed
  qed
qed

lemma scan_records_sorted:
  "sorted_wrt (\<lambda>a b. length b < length a) (scan_records scan)"
proof (induction scan rule: scan_records.induct)
  case (1 scan)
  show ?case
  proof (cases "find_next_stmttrn scan")
    case None
    then show ?thesis by (subst scan_records.simps) simp
  next
    case (Some r)
    obtain block_start block_after where r: "r = (block_start, block_after)" by (cases r)
    from find_next_stmttrn_suffixes [OF Some [unfolded r]]
    have shorter: "length block_after < length block_start" by blast
    have "length b < length block_start" if "b \<in> set (scan_records block_after)" for b
    proof -
      from scan_records_suffix [OF that] obtain w where "block_after = w @ b" by blast
      with shorter show ?thesis by simp
    qed
    with "1.IH" [OF Some r [symmetric]] Some r show ?thesis
      by (subst scan_records.simps) simp
  qed
qed

section \<open>The output file, its writes and its lines\<close>

lemma file_lines_line:
  "CHR 0x0A \<notin> set l \<Longrightarrow> file_lines (l @ CHR 0x0A # rest) = l # file_lines rest"
  by (induction l) auto

lemma file_lines_concat:
  "\<forall>l \<in> set ls. CHR 0x0A \<notin> set l \<Longrightarrow> file_lines (concat (map line ls)) = ls"
  by (induction ls) (simp_all add: line_def file_lines_line)

lemma qif_block_lines:
  "qif_block includeMemo date payee memo amount =
     map line (qif_lines includeMemo date payee memo amount)"
  by (simp add: qif_block_def qif_lines_def)

lemma sanitize_no_break: "CHR 0x0A \<notin> set (sanitize s) \<and> CHR 0x0D \<notin> set (sanitize s)"
  by (auto simp: sanitize_def)

lemma payee_no_break:
  "CHR 0x0A \<notin> set (payee_text (name_of b)) \<and> CHR 0x0D \<notin> set (payee_text (name_of b))"
  using sanitize_no_break [of "trim_inplace (raw_field b ''NAME'')"]
  by (simp add: payee_text_def name_of_def)

lemma memo_no_break: "CHR 0x0A \<notin> set (memo_of b) \<and> CHR 0x0D \<notin> set (memo_of b)"
  using sanitize_no_break [of "trim_inplace (raw_field b ''MEMO'')"]
  by (simp add: memo_of_def)

lemma date_text_no_feed:
  assumes "CHR 0x0A \<notin> set dtposted"
  shows "CHR 0x0A \<notin> set (date_text dtposted)"
proof (cases "ofxdate_to_mmddyyyy dtposted 16")
  case None
  with assms show ?thesis by (auto simp: date_text_def dest: in_set_takeD)
next
  case (Some d)
  from ofxdate_value [OF Some] assms show ?thesis
    using Some by (auto simp: date_text_def dest: in_set_takeD in_set_dropD)
qed

lemma qif_lines_no_feed:
  assumes "CHR 0x0A \<notin> set date" "CHR 0x0A \<notin> set payee" "CHR 0x0A \<notin> set memo"
    "CHR 0x0A \<notin> set amount"
  shows "\<forall>l \<in> set (qif_lines includeMemo date payee memo amount). CHR 0x0A \<notin> set l"
  using assms by (simp add: qif_lines_def)

lemma record_block_lines: "record_block memoFlag b = map line (record_lines memoFlag b)"
  by (simp add: record_block_def record_lines_def qif_block_lines)

lemma record_lines_no_feed:
  assumes "CHR 0x0A \<notin> set (dtposted_of b)" "CHR 0x0A \<notin> set (trnamt_of b)"
  shows "\<forall>l \<in> set (record_lines memoFlag b). CHR 0x0A \<notin> set l"
  unfolding record_lines_def
  using assms payee_no_break [of b] memo_no_break [of b]
  by (intro qif_lines_no_feed date_text_no_feed) auto

lemma file_contents_convert:
  "file_contents (convert memoFlag bytes) =
     concat (map line (''!Type:Bank'' #
       concat (map (record_lines memoFlag) (emitted_records (cstr bytes)))))"
proof -
  have "record_block memoFlag = (\<lambda>b. map line (record_lines memoFlag b))"
    by (rule ext) (rule record_block_lines)
  then show ?thesis
    by (simp add: file_contents_def convert_fout map_concat comp_def)
qed

lemma file_lines_convert:
  assumes "\<forall>b \<in> set (emitted_records (cstr bytes)).
             CHR 0x0A \<notin> set (dtposted_of b) \<and> CHR 0x0A \<notin> set (trnamt_of b)"
  shows "file_lines (file_contents (convert memoFlag bytes)) =
           ''!Type:Bank'' # concat (map (record_lines memoFlag) (emitted_records (cstr bytes)))"
proof -
  have "\<forall>l \<in> set (''!Type:Bank'' #
       concat (map (record_lines memoFlag) (emitted_records (cstr bytes)))). CHR 0x0A \<notin> set l"
    using assms record_lines_no_feed by auto
  then show ?thesis
    unfolding file_contents_convert by (rule file_lines_concat)
qed










section \<open>Where a field is searched\<close>







section \<open>The date fallback\<close>

text \<open>
  C3, on the input where the code leaves it. A record with an amount whose
  \<open>DTPOSTED\<close> token, of 19 bytes, fails the conversion on the whole token and on its
  first 8 bytes. The source says of this fallback "print original DTPOSTED", but
  \<open>strncpy\<close> copies \<open>sizeof(qifdate) - 1\<close> bytes into \<open>qifdate[16]\<close>: the date
  line holds the first 15 bytes of the token, not the token.
\<close>

theorem date_fallback_failing_input:
  "trim_inplace (raw_field ''<DTPOSTED>2025-11-28T10:00:00<TRNAMT>5</STMTTRN>'' ''DTPOSTED'')
       = ''2025-11-28T10:00:00''
   \<and> ofxdate_to_mmddyyyy ''2025-11-28T10:00:00'' 16 = None
   \<and> ofxdate_to_mmddyyyy (take 8 ''2025-11-28T10:00:00'') 16 = None
   \<and> file_lines (file_contents (convert False
         ''<STMTTRN><DTPOSTED>2025-11-28T10:00:00<TRNAMT>5</STMTTRN>''))
       = [''!Type:Bank'', ''D2025-11-28T10:0'', ''P(unknown)'', ''T5'', ''C*'', ''^'']"
  by code_simp


section \<open>The memo\<close>





section \<open>The output\<close>

lemma concat_blocks:
  "(\<And>x. concat (f x) = g x) \<Longrightarrow> concat (concat (map f xs)) = concat (map g xs)"
  by (induction xs) simp_all

text \<open>
  C9, as the code has it. The output file is the header line \<open>!Type:Bank\<close>, written
  once before the loop, followed for each emitted record (one whose trimmed amount
  buffer is not empty), in the order in which the loop finds the records, which is
  their order in the buffer, by the date
  text after \<open>D\<close>, the payee after \<open>P\<close>, the memo after \<open>M\<close> only when memos
  are included and the memo is not empty, the amount text after \<open>T\<close>, \<open>C*\<close> and
  \<open>^\<close>, each followed by a line feed. The payee and the memo hold no carriage
  return or line feed. When no emitted record has a line feed in its trimmed
  \<open>DTPOSTED\<close> or \<open>TRNAMT\<close> token, the lines of the output file are exactly the
  header and, for each of these records, the \<open>D\<close>, \<open>P\<close>, \<open>M\<close> (under the same
  condition), \<open>T\<close>, \<open>C*\<close> and \<open>^\<close> lines.
\<close>

theorem qif_output_layout:
  "file_contents (convert memoFlag bytes) =
     line ''!Type:Bank'' @
     concat (map (\<lambda>b. line (''D'' @ date_text (dtposted_of b))
                       @ line (''P'' @ payee_text (name_of b))
                       @ (if memoFlag \<and> memo_of b \<noteq> [] then line (''M'' @ memo_of b) else [])
                       @ line (''T'' @ filter (\<lambda>c. c \<noteq> CHR '','') (trnamt_of b))
                       @ line ''C*'' @ line ''^'')
                 (filter (\<lambda>b. trnamt_of b \<noteq> []) (scan_records (cstr bytes))))
   \<and> (\<forall>b. CHR 0x0A \<notin> set (payee_text (name_of b)) \<and> CHR 0x0D \<notin> set (payee_text (name_of b))
          \<and> CHR 0x0A \<notin> set (memo_of b) \<and> CHR 0x0D \<notin> set (memo_of b))
   \<and> ((\<forall>b \<in> set (filter (\<lambda>b. trnamt_of b \<noteq> []) (scan_records (cstr bytes))).
          CHR 0x0A \<notin> set (dtposted_of b) \<and> CHR 0x0A \<notin> set (trnamt_of b)) \<longrightarrow>
        file_lines (file_contents (convert memoFlag bytes)) =
          ''!Type:Bank'' #
          concat (map (\<lambda>b. [''D'' @ date_text (dtposted_of b), ''P'' @ payee_text (name_of b)]
                            @ (if memoFlag \<and> memo_of b \<noteq> [] then [''M'' @ memo_of b] else [])
                            @ [''T'' @ filter (\<lambda>c. c \<noteq> CHR '','') (trnamt_of b), ''C*'', ''^''])
                      (filter (\<lambda>b. trnamt_of b \<noteq> []) (scan_records (cstr bytes)))))
   \<and> sorted_wrt (\<lambda>a b. length b < length a) (scan_records (cstr bytes))
   \<and> (\<forall>b \<in> set (scan_records (cstr bytes)). \<exists>u. cstr bytes = u @ b)"
proof (intro conjI allI impI ballI)
  have blocks: "record_lines memoFlag =
      (\<lambda>b. [''D'' @ date_text (dtposted_of b), ''P'' @ payee_text (name_of b)]
                            @ (if memoFlag \<and> memo_of b \<noteq> [] then [''M'' @ memo_of b] else [])
                            @ [''T'' @ filter (\<lambda>c. c \<noteq> CHR '','') (trnamt_of b), ''C*'', ''^''])"
    by (rule ext) (simp add: record_lines_def qif_lines_def)
  show "file_contents (convert memoFlag bytes) =
     line ''!Type:Bank'' @
     concat (map (\<lambda>b. line (''D'' @ date_text (dtposted_of b))
                       @ line (''P'' @ payee_text (name_of b))
                       @ (if memoFlag \<and> memo_of b \<noteq> [] then line (''M'' @ memo_of b) else [])
                       @ line (''T'' @ filter (\<lambda>c. c \<noteq> CHR '','') (trnamt_of b))
                       @ line ''C*'' @ line ''^'')
                 (filter (\<lambda>b. trnamt_of b \<noteq> []) (scan_records (cstr bytes))))"
  proof -
    have "file_contents (convert memoFlag bytes) =
        line ''!Type:Bank'' @
        concat (concat (map (\<lambda>b. map line (record_lines memoFlag b))
          (filter (\<lambda>b. trnamt_of b \<noteq> []) (scan_records (cstr bytes)))))"
      by (simp add: file_contents_convert emitted_records_def map_concat comp_def)
    also have "concat (concat (map (\<lambda>b. map line (record_lines memoFlag b))
          (filter (\<lambda>b. trnamt_of b \<noteq> []) (scan_records (cstr bytes))))) =
        concat (map (\<lambda>b. line (''D'' @ date_text (dtposted_of b))
                       @ line (''P'' @ payee_text (name_of b))
                       @ (if memoFlag \<and> memo_of b \<noteq> [] then line (''M'' @ memo_of b) else [])
                       @ line (''T'' @ filter (\<lambda>c. c \<noteq> CHR '','') (trnamt_of b))
                       @ line ''C*'' @ line ''^'')
                 (filter (\<lambda>b. trnamt_of b \<noteq> []) (scan_records (cstr bytes))))"
      by (rule concat_blocks) (auto simp: blocks)
    finally show ?thesis .
  qed
  show "file_lines (file_contents (convert memoFlag bytes)) =
          ''!Type:Bank'' #
          concat (map (\<lambda>b. [''D'' @ date_text (dtposted_of b), ''P'' @ payee_text (name_of b)]
                            @ (if memoFlag \<and> memo_of b \<noteq> [] then [''M'' @ memo_of b] else [])
                            @ [''T'' @ filter (\<lambda>c. c \<noteq> CHR '','') (trnamt_of b), ''C*'', ''^''])
                      (filter (\<lambda>b. trnamt_of b \<noteq> []) (scan_records (cstr bytes))))"
    if "\<forall>b \<in> set (filter (\<lambda>b. trnamt_of b \<noteq> []) (scan_records (cstr bytes))).
          CHR 0x0A \<notin> set (dtposted_of b) \<and> CHR 0x0A \<notin> set (trnamt_of b)"
    using file_lines_convert [of bytes memoFlag] that
    by (simp only: emitted_records_def blocks)
  show "sorted_wrt (\<lambda>a b. length b < length a) (scan_records (cstr bytes))"
    by (rule scan_records_sorted)
  show "\<exists>u. cstr bytes = u @ b" if "b \<in> set (scan_records (cstr bytes))" for b
    using that by (rule scan_records_suffix)
qed (simp_all add: payee_no_break memo_no_break)


theorem qif_output_layout_witness:
  "file_lines (file_contents (convert True ''<STMTTRN><DTPOSTED>20250102<NAME>Al<TRNAMT>-5<MEMO>m</STMTTRN><STMTTRN><TRNAMT>7</STMTTRN><STMTTRN></STMTTRN>''))
     = [''!Type:Bank'',
        ''D01/02/2025'', ''PAl'', ''Mm'', ''T-5'', ''C*'', ''^'',
        ''D'', ''P(unknown)'', ''T7'', ''C*'', ''^'']"
proof -
  have feeds: "\<forall>b \<in> set (filter (\<lambda>b. trnamt_of b \<noteq> []) (scan_records (cstr ''<STMTTRN><DTPOSTED>20250102<NAME>Al<TRNAMT>-5<MEMO>m</STMTTRN><STMTTRN><TRNAMT>7</STMTTRN><STMTTRN></STMTTRN>''))).
          CHR 0x0A \<notin> set (dtposted_of b) \<and> CHR 0x0A \<notin> set (trnamt_of b)"
    by code_simp
  have rhs: "''!Type:Bank'' #
          concat (map (\<lambda>b. [''D'' @ date_text (dtposted_of b), ''P'' @ payee_text (name_of b)]
                            @ (if True \<and> memo_of b \<noteq> [] then [''M'' @ memo_of b] else [])
                            @ [''T'' @ filter (\<lambda>c. c \<noteq> CHR '','') (trnamt_of b), ''C*'', ''^''])
                      (filter (\<lambda>b. trnamt_of b \<noteq> []) (scan_records (cstr ''<STMTTRN><DTPOSTED>20250102<NAME>Al<TRNAMT>-5<MEMO>m</STMTTRN><STMTTRN><TRNAMT>7</STMTTRN><STMTTRN></STMTTRN>''))))
     = [''!Type:Bank'',
        ''D01/02/2025'', ''PAl'', ''Mm'', ''T-5'', ''C*'', ''^'',
        ''D'', ''P(unknown)'', ''T7'', ''C*'', ''^'']"
    by code_simp
  from qif_output_layout [of True "''<STMTTRN><DTPOSTED>20250102<NAME>Al<TRNAMT>-5<MEMO>m</STMTTRN><STMTTRN><TRNAMT>7</STMTTRN><STMTTRN></STMTTRN>''", THEN conjunct2, THEN conjunct2, THEN conjunct1,
      THEN mp, OF feeds]
  show ?thesis using rhs by (rule trans)
qed

text \<open>
  A date token with a line feed in it: the date text takes two lines of the output
  file, and the second is none of the six lines of a block.
\<close>

theorem qif_output_layout_counterexample:
  "trnamt_of ''<DTPOSTED>ab\<newline>cd<TRNAMT>1</STMTTRN>'' \<noteq> []
   \<and> file_contents (convert False ''<STMTTRN><DTPOSTED>ab\<newline>cd<TRNAMT>1</STMTTRN>'')
       = ''!Type:Bank\<newline>Dab\<newline>cd\<newline>P(unknown)\<newline>T1\<newline>C*\<newline>^\<newline>''
   \<and> file_lines (file_contents (convert False ''<STMTTRN><DTPOSTED>ab\<newline>cd<TRNAMT>1</STMTTRN>''))
       = [''!Type:Bank'', ''Dab'', ''cd'', ''P(unknown)'', ''T1'', ''C*'', ''^'']"
  by code_simp


end
